theory Spec2Isabelle
  imports Main "HOL-Library.Word" "HOL-Library.Sublist" "HOL-Library.Multiset"
begin

section \<open>Strings of the source language\<close>

text \<open>
  The program is TypeScript: a string is a sequence of 16-bit code units, and the
  regular expression of \<^verbatim>\<open>parseLogMessage\<close> (no \<^verbatim>\<open>u\<close> flag) works on code units.
  ASCII literals of the source are written \<open>js ''...''\<close>.
\<close>

type_synonym code_unit = "16 word"
type_synonym jsstring = "code_unit list"

definition js :: "string \<Rightarrow> jsstring" where
  "js s = map of_char s"

definition NL :: code_unit where
  "NL = 0x0A"

definition GT :: code_unit where
  "GT = 0x3E"

text \<open>
  \<^verbatim>\<open>s.split("\n")\<close>: the pieces between the occurrences of the separator, scanned left to
  right; the empty string gives one empty piece.
\<close>

fun split_from :: "code_unit \<Rightarrow> jsstring \<Rightarrow> jsstring \<Rightarrow> jsstring list" where
  "split_from sep cur [] = [cur]"
| "split_from sep cur (c # cs) =
     (if c = sep then cur # split_from sep [] cs else split_from sep (cur @ [c]) cs)"

definition split :: "code_unit \<Rightarrow> jsstring \<Rightarrow> jsstring list" where
  "split sep s = split_from sep [] s"

text \<open>\<^verbatim>\<open>Boolean\<close> on a string: only the empty string is falsy.\<close>

definition Boolean :: "jsstring \<Rightarrow> bool" where
  "Boolean s = (s \<noteq> [])"

text \<open>\<^verbatim>\<open>xs.includes(x)\<close> on an array of strings.\<close>

primrec array_includes :: "jsstring list \<Rightarrow> jsstring \<Rightarrow> bool" where
  "array_includes [] x = False"
| "array_includes (y # ys) x = (y = x \<or> array_includes ys x)"

section \<open>The regular expression of parseLogMessage\<close>

text \<open>
  \<^verbatim>\<open>/hash<(.+)> ref<(.*)> message<(.*)> date<(.*)>/\<close> is a sequence of literals and
  greedy capturing groups over \<^verbatim>\<open>.\<close>; \<open>Group n\<close> is \<^verbatim>\<open>(.{n,})\<close>, so \<^verbatim>\<open>(.+)\<close> is
  \<open>Group 1\<close> and \<^verbatim>\<open>(.*)\<close> is \<open>Group 0\<close>.
\<close>

datatype item = Lit jsstring | Group nat

definition LOG_REGEX :: "item list" where
  "LOG_REGEX =
     [Lit (js ''hash<''), Group 1, Lit (js ''> ref<''), Group 0,
      Lit (js ''> message<''), Group 0, Lit (js ''> date<''), Group 0, Lit (js ''>'')]"

text \<open>\<^verbatim>\<open>.\<close> matches every code unit except the four line terminators.\<close>

definition dot :: "code_unit \<Rightarrow> bool" where
  "dot c = (c \<noteq> 0x0A \<and> c \<noteq> 0x0D \<and> c \<noteq> 0x2028 \<and> c \<noteq> 0x2029)"

text \<open>
  The greedy quantifier with backtracking, as the language's repeat matcher: take one
  more code unit and go on; when that fails and the minimum is reached, run the
  continuation \<open>k\<close> (the rest of the pattern) here. The result is the captured text and
  what the continuation returned.
\<close>

fun greedy :: "nat \<Rightarrow> (jsstring \<Rightarrow> 'a option) \<Rightarrow> jsstring \<Rightarrow> (jsstring \<times> 'a) option" where
  "greedy n k [] = (if n = 0 then map_option (Pair []) (k []) else None)"
| "greedy n k (c # cs) =
     (case (if dot c then greedy (n - 1) k cs else None) of
        Some (cap, r) \<Rightarrow> Some (c # cap, r)
      | None \<Rightarrow> if n = 0 then map_option (Pair []) (k (c # cs)) else None)"

text \<open>
  Matching a pattern at the start of the input: the captures of the groups, in order,
  and the input left after the match.
\<close>

primrec matcher :: "item list \<Rightarrow> jsstring \<Rightarrow> (jsstring list \<times> jsstring) option" where
  "matcher [] = (\<lambda>s. Some ([], s))"
| "matcher (i # r) = (\<lambda>s.
     case i of
       Lit l \<Rightarrow> if prefix l s then matcher r (drop (length l) s) else None
     | Group n \<Rightarrow> map_option (\<lambda>(cap, caps, rest). (cap # caps, rest)) (greedy n (matcher r) s))"

text \<open>
  \<^verbatim>\<open>str.match(re)\<close> for a pattern without the global flag: the leftmost start index at
  which the pattern matches, the end of the input included; the array holds the matched
  text and then the captures. No match is \<^verbatim>\<open>null\<close>.
\<close>

fun match :: "item list \<Rightarrow> jsstring \<Rightarrow> jsstring list option" where
  "match re [] =
     (case matcher re [] of Some (caps, rest) \<Rightarrow> Some ([] # caps) | None \<Rightarrow> None)"
| "match re (c # cs) =
     (case matcher re (c # cs) of
        Some (caps, rest) \<Rightarrow> Some (take (length (c # cs) - length rest) (c # cs) # caps)
      | None \<Rightarrow> match re cs)"

section \<open>git.ts\<close>

record CommitListItem =
  sha :: jsstring
  refName :: jsstring
  summary :: jsstring
  date :: jsstring

definition parseLogMessage :: "jsstring \<Rightarrow> CommitListItem option" where
  "parseLogMessage commit =
     (let parts = (case match LOG_REGEX commit of Some m \<Rightarrow> m | None \<Rightarrow> [])
      in if length parts = 0 then None
         else Some \<lparr>sha = parts ! 1, refName = parts ! 2, summary = parts ! 3, date = parts ! 4\<rparr>)"

text \<open>
  The external tool. \<^verbatim>\<open>execa.sync("git", args)\<close> and \<^verbatim>\<open>await execa("git", args)\<close> either
  throw or give the standard output (\<^verbatim>\<open>stdout\<close>, which the library hands over without the
  final line break); the call may change the repository (a fetch does), so the tool is a
  function of a world \<open>'w\<close> that returns the next world. Every call is recorded with its
  outcome, in the order of the calls.
\<close>

datatype error = ExecaError jsstring

type_synonym 'w git = "'w \<Rightarrow> jsstring list \<Rightarrow> (error + jsstring) \<times> 'w"

type_synonym call = "jsstring list \<times> (error + jsstring)"

definition execa :: "'w git \<Rightarrow> jsstring list \<Rightarrow> 'w \<Rightarrow> (error + jsstring) \<times> 'w \<times> call list" where
  "execa git args w = (case git w args of (res, w') \<Rightarrow> (res, w', [(args, res)]))"

definition showArgs :: "jsstring \<Rightarrow> jsstring list" where
  "showArgs sha' =
     [js ''show'', js ''-m'', js ''--name-only'', js ''--pretty=format:'', js ''--first-parent'', sha']"

definition changedPaths :: "'w git \<Rightarrow> jsstring \<Rightarrow> 'w \<Rightarrow> (error + jsstring list) \<times> 'w \<times> call list" where
  "changedPaths git sha' w =
     (case execa git (showArgs sha') w of
        (Inl e, w', cs) \<Rightarrow> (Inl e, w', cs)
      | (Inr out, w', cs) \<Rightarrow> (Inr (split NL out), w', cs))"

definition tagArgs :: "jsstring list" where
  "tagArgs = [js ''tag'']"

definition listTagNames :: "'w git \<Rightarrow> 'w \<Rightarrow> (error + jsstring list) \<times> 'w \<times> call list" where
  "listTagNames git w =
     (case execa git tagArgs w of
        (Inl e, w', cs) \<Rightarrow> (Inl e, w', cs)
      | (Inr out, w', cs) \<Rightarrow> (Inr (filter Boolean (split NL out)), w', cs))"

definition describeArgs :: "jsstring list" where
  "describeArgs = [js ''describe'', js ''--abbrev=0'', js ''--tags'']"

definition lastTag :: "'w git \<Rightarrow> 'w \<Rightarrow> (error + jsstring) \<times> 'w \<times> call list" where
  "lastTag git w = execa git describeArgs w"

definition fetchArgs :: "jsstring list" where
  "fetchArgs = [js ''fetch'']"

definition dupArgs :: "jsstring \<Rightarrow> jsstring list" where
  "dupArgs branch =
     [js ''log'', js ''--oneline'', js ''--pretty=%s'', js ''origin/master..origin/'' @ branch]"

definition rangeArgs :: "jsstring \<Rightarrow> jsstring \<Rightarrow> jsstring list" where
  "rangeArgs from to =
     [js ''log'', js ''--oneline'', js ''--pretty=hash<%h> ref<%D> message<%s> date<%cd>'',
      js ''--date=short'', from @ js ''..'' @ to]"

text \<open>
  The \<^verbatim>\<open>forEach\<close> over the duplicate-check branches: each branch's summaries are pushed
  onto \<^verbatim>\<open>targetCommits\<close>; a failing call throws out of the loop.
\<close>

fun dupCheck :: "'w git \<Rightarrow> jsstring list \<Rightarrow> jsstring list \<Rightarrow> 'w \<Rightarrow>
    (error + jsstring list) \<times> 'w \<times> call list" where
  "dupCheck git [] targetCommits w = (Inr targetCommits, w, [])"
| "dupCheck git (branch # branches) targetCommits w =
     (case execa git (dupArgs branch) w of
        (Inl e, w', cs) \<Rightarrow> (Inl e, w', cs)
      | (Inr out, w', cs) \<Rightarrow>
          (case dupCheck git branches (targetCommits @ filter Boolean (split NL out)) w' of
             (res, w'', cs') \<Rightarrow> (res, w'', cs @ cs')))"

text \<open>\<^verbatim>\<open>.filter(Boolean)\<close> on the parsed lines: \<^verbatim>\<open>null\<close> is dropped, an object is kept.\<close>

primrec filter_Boolean :: "'a option list \<Rightarrow> 'a list" where
  "filter_Boolean [] = []"
| "filter_Boolean (x # xs) = (case x of None \<Rightarrow> filter_Boolean xs | Some y \<Rightarrow> y # filter_Boolean xs)"

text \<open>
  \<^verbatim>\<open>listCommits(from, to = "", duplicateCheckBranches = [])\<close>; an argument left out is
  \<open>None\<close> and takes its default.
\<close>

definition to_default :: "jsstring option \<Rightarrow> jsstring" where
  "to_default to_opt = (case to_opt of None \<Rightarrow> js '''' | Some t \<Rightarrow> t)"

definition branches_default :: "jsstring list option \<Rightarrow> jsstring list" where
  "branches_default branches_opt = (case branches_opt of None \<Rightarrow> [] | Some bs \<Rightarrow> bs)"

definition listCommits :: "'w git \<Rightarrow> jsstring \<Rightarrow> jsstring option \<Rightarrow> jsstring list option \<Rightarrow> 'w \<Rightarrow>
    (error + CommitListItem list) \<times> 'w \<times> call list" where
  "listCommits git from to_opt duplicateCheckBranches_opt w =
     (let to = to_default to_opt;
          duplicateCheckBranches = branches_default duplicateCheckBranches_opt
      in case execa git fetchArgs w of
           (Inl e, w1, cs1) \<Rightarrow> (Inl e, w1, cs1)
         | (Inr _, w1, cs1) \<Rightarrow>
             (case dupCheck git duplicateCheckBranches [] w1 of
                (Inl e, w2, cs2) \<Rightarrow> (Inl e, w2, cs1 @ cs2)
              | (Inr targetCommits, w2, cs2) \<Rightarrow>
                  (case execa git (rangeArgs from to) w2 of
                     (Inl e, w3, cs3) \<Rightarrow> (Inl e, w3, cs1 @ cs2 @ cs3)
                   | (Inr out, w3, cs3) \<Rightarrow>
                       (Inr (filter (\<lambda>item. \<not> array_includes targetCommits (summary item))
                               (filter_Boolean (map parseLogMessage
                                  (filter Boolean (split NL out))))),
                        w3, cs1 @ cs2 @ cs3))))"

section \<open>What the properties are stated with\<close>

text \<open>
  The lines of an output: \<open>join sep ls\<close> is the text whose lines are \<open>ls\<close>. It is the
  inverse of \<open>split\<close> on non-empty lists of separator-free lines (\<open>split_join\<close>,
  \<open>join_split\<close>, \<open>split_no_sep\<close>).
\<close>

fun join :: "code_unit \<Rightarrow> jsstring list \<Rightarrow> jsstring" where
  "join sep [] = []"
| "join sep [l] = l"
| "join sep (l # l' # ls) = l @ sep # join sep (l' # ls)"

text \<open>
  The \<^verbatim>\<open>--pretty\<close> format of \<^verbatim>\<open>listCommits\<close> with its four placeholders filled: the
  structured line of a commit.
\<close>

definition format_line :: "jsstring \<Rightarrow> jsstring \<Rightarrow> jsstring \<Rightarrow> jsstring \<Rightarrow> jsstring" where
  "format_line h r m d =
     js ''hash<'' @ h @ js ''> ref<'' @ r @ js ''> message<'' @ m @ js ''> date<'' @ d @ js ''>''"

text \<open>
  Field values the pattern admits: no line terminator inside a field, and a non-empty
  hash.
\<close>

definition fields_ok :: "jsstring \<Rightarrow> jsstring \<Rightarrow> jsstring \<Rightarrow> jsstring \<Rightarrow> bool" where
  "fields_ok h r m d = (h \<noteq> [] \<and> list_all dot h \<and> list_all dot r \<and> list_all dot m \<and> list_all dot d)"

text \<open>A line that is, as a whole, a structured line.\<close>

definition conforms :: "jsstring \<Rightarrow> bool" where
  "conforms l = (\<exists>h r m d. fields_ok h r m d \<and> l = format_line h r m d)"

text \<open>A line in which a structured line occurs, with any text before and after it.\<close>

definition contains_format :: "jsstring \<Rightarrow> bool" where
  "contains_format l = (\<exists>pre h r m d post. fields_ok h r m d \<and> l = pre @ format_line h r m d @ post)"

text \<open>
  What a pattern denotes, without any search order: \<open>accepts re s caps rest\<close> says that
  \<open>s\<close> is a text of the pattern with the groups holding \<open>caps\<close>, followed by \<open>rest\<close>.
\<close>

fun accepts :: "item list \<Rightarrow> jsstring \<Rightarrow> jsstring list \<Rightarrow> jsstring \<Rightarrow> bool" where
  "accepts [] s caps rest = (caps = [] \<and> rest = s)"
| "accepts (Lit l # re) s caps rest = (prefix l s \<and> accepts re (drop (length l) s) caps rest)"
| "accepts (Group n # re) s [] rest = False"
| "accepts (Group n # re) s (cap # caps) rest =
     (prefix cap s \<and> list_all dot cap \<and> n \<le> length cap \<and> accepts re (drop (length cap) s) caps rest)"

text \<open>
  The tool answers queries without changing the repository: every call other than the
  fetch leaves the world as it is, so that a query has one answer however often and in
  whatever order it is asked.
\<close>

definition queries_pure :: "'w git \<Rightarrow> bool" where
  "queries_pure git = (\<forall>w args. args \<noteq> fetchArgs \<longrightarrow> snd (git w args) = w)"

text \<open>The summaries that the duplicate-check queries recorded in a list of calls returned.\<close>

definition excluded :: "call list \<Rightarrow> jsstring \<Rightarrow> bool" where
  "excluded calls s =
     (\<exists>b out. (dupArgs b, Inr out) \<in> set calls \<and> s \<in> set (filter Boolean (split NL out)))"

text \<open>
  Issuing a list of calls one after the other, each in the state of the repository that
  the call before it left: the outcomes, and the state at the end.
\<close>

fun replay :: "'w git \<Rightarrow> 'w \<Rightarrow> jsstring list list \<Rightarrow> call list \<times> 'w" where
  "replay git w [] = ([], w)"
| "replay git w (args # rest) =
     (case git w args of
        (res, w1) \<Rightarrow> (case replay git w1 rest of (cs, w2) \<Rightarrow> ((args, res) # cs, w2)))"

section \<open>An example repository\<close>

text \<open>
  A repository to run the functions on: two tags, a release branch that carries a
  backported fix, and a range whose log has a structured line, a truncated line, a blank
  line and the backported commit.
\<close>

definition example_fix :: CommitListItem where
  "example_fix =
     \<lparr>sha = js ''abc123'', refName = js ''tag: v1.2.0'', summary = js ''Fix bug'',
      date = js ''2024-01-15''\<rparr>"

definition example_backport :: CommitListItem where
  "example_backport =
     \<lparr>sha = js ''0a1b2c3'', refName = js '''', summary = js ''Backport: fix bug'',
      date = js ''2024-01-10''\<rparr>"

definition example_log :: jsstring where
  "example_log = join NL
     [js ''hash<abc123> ref<tag: v1.2.0> message<Fix bug> date<2024-01-15>'',
      js ''hash<def456> ref<> message<Trunc'',
      js '''',
      js ''hash<0a1b2c3> ref<> message<Backport: fix bug> date<2024-01-10>'']"

definition example_git :: "unit git" where
  "example_git w args =
     (if args = fetchArgs then (Inr (js ''''), w)
      else if args = dupArgs (js ''release-1.x'') then (Inr (js ''Backport: fix bug''), w)
      else if args = dupArgs (js ''release-2.x'') then (Inr (js ''Bump deps''), w)
      else if args = rangeArgs (js ''v1.0.0'') (js ''v1.1.0'') then (Inr example_log, w)
      else if args = rangeArgs (js ''v1.1.0'') (js '''') then (Inr (js ''''), w)
      else if args = tagArgs then (Inr (join NL [js ''v1.0.0'', js '''', js ''v1.1.0'']), w)
      else (Inl (ExecaError (js ''fatal'')), w))"

text \<open>The calls that \<^verbatim>\<open>listCommits("v1.0.0", "v1.1.0", ["release-1.x"])\<close> makes there.\<close>

definition example_calls :: "call list" where
  "example_calls =
     [(fetchArgs, Inr (js '''')),
      (dupArgs (js ''release-1.x''), Inr (js ''Backport: fix bug'')),
      (rangeArgs (js ''v1.0.0'') (js ''v1.1.0''), Inr example_log)]"

text \<open>
  A tool whose answers depend on the fetch: the state says whether the remote has been
  fetched, and the release branch shows its backported commit only after that.
\<close>

definition fetched_git :: "bool git" where
  "fetched_git w args =
     (if args = fetchArgs then (Inr (js ''''), True)
      else if args = dupArgs (js ''release-1.x'')
        then (Inr (if w then js ''Backport: fix bug'' else js ''''), w)
      else if args = rangeArgs (js ''v1.0.0'') (js ''v1.1.0'') then (Inr example_log, w)
      else (Inl (ExecaError (js ''fatal'')), w))"

text \<open>A log line with text around the structured part, and a tool that prints it.\<close>

definition embedded_line :: jsstring where
  "embedded_line = js ''x hash<a1> ref<> message<m> date<d> y''"

definition embedded_git :: "unit git" where
  "embedded_git w args = (Inr embedded_line, w)"

section \<open>Lines\<close>

lemma split_from_append: "sep \<notin> set l \<Longrightarrow> split_from sep cur (l @ rest) = split_from sep (cur @ l) rest"
  by (induction l arbitrary: cur) auto

lemma split_join: "ls \<noteq> [] \<Longrightarrow> \<forall>l\<in>set ls. sep \<notin> set l \<Longrightarrow> split sep (join sep ls) = ls"
proof (induction sep ls rule: join.induct)
  case (1 sep)
  then show ?case by simp
next
  case (2 sep l)
  then show ?case using split_from_append [of sep l "[]" "[]"] by (simp add: split_def)
next
  case (3 sep l l' ls)
  then show ?case using split_from_append [of sep l "[]" "sep # join sep (l' # ls)"]
    by (simp add: split_def)
qed

lemma split_from_shape: "\<exists>l ls. split_from sep cur s = (cur @ l) # ls \<and> split_from sep [] s = l # ls"
proof (induction s arbitrary: cur)
  case Nil
  then show ?case by simp
next
  case (Cons c s)
  show ?case
  proof (cases "c = sep")
    case True
    then show ?thesis by simp
  next
    case False
    from Cons [of "cur @ [c]"] Cons [of "[c]"] False show ?thesis by auto
  qed
qed

lemma split_from_Cons: "split_from sep (c # cur) s = (c # hd (split_from sep cur s)) # tl (split_from sep cur s)"
  using split_from_shape [of sep "c # cur" s] split_from_shape [of sep cur s] by auto

lemma split_from_ne: "split_from sep cur s \<noteq> []"
  using split_from_shape [of sep cur s] by auto

lemma join_split_from: "join sep (split_from sep [] s) = s"
proof (induction s)
  case Nil
  then show ?case by simp
next
  case (Cons c s)
  obtain l ls where s: "split_from sep [] s = l # ls"
    using split_from_ne [of sep "[]" s] by (cases "split_from sep [] s") auto
  show ?case
  proof (cases "c = sep")
    case True
    with Cons s show ?thesis by simp
  next
    case False
    have "split_from sep [c] s = (c # l) # ls" using split_from_Cons [of sep c "[]" s] s by simp
    with Cons s False show ?thesis by (cases ls) auto
  qed
qed

lemma split_from_no_sep: "sep \<notin> set cur \<Longrightarrow> l \<in> set (split_from sep cur s) \<Longrightarrow> sep \<notin> set l"
proof (induction s arbitrary: cur)
  case Nil
  then show ?case by simp
next
  case (Cons c s)
  show ?case
  proof (cases "c = sep")
    case True
    with Cons.prems have "l = cur \<or> l \<in> set (split_from sep [] s)" by simp
    then show ?thesis using Cons.prems(1) Cons.IH [of "[]"] by auto
  next
    case False
    with Cons.prems have "l \<in> set (split_from sep (cur @ [c]) s)" by simp
    then show ?thesis using Cons.IH [of "cur @ [c]"] Cons.prems(1) False by auto
  qed
qed

section \<open>The matcher finds what the pattern denotes\<close>

lemma greedy_sound:
  "greedy n k s = Some (cap, r) \<Longrightarrow>
     prefix cap s \<and> list_all dot cap \<and> n \<le> length cap \<and> k (drop (length cap) s) = Some r"
proof (induction s arbitrary: n cap)
  case Nil
  then show ?case by (auto split: if_splits)
next
  case (Cons c cs)
  show ?case
  proof (cases "dot c \<and> greedy (n - 1) k cs \<noteq> None")
    case True
    then obtain cap' r' where g: "greedy (n - 1) k cs = Some (cap', r')" by auto
    with True Cons.prems have eq: "cap = c # cap'" "r = r'" by auto
    from g eq have g': "greedy (n - 1) k cs = Some (cap', r)" by simp
    from Cons.IH [OF g'] True eq show ?thesis by auto
  next
    case False
    with Cons.prems have "n = 0" "cap = []" "k (c # cs) = Some r"
      by (auto split: if_splits option.splits)
    then show ?thesis by simp
  qed
qed

lemma greedy_complete:
  "prefix cap s \<Longrightarrow> list_all dot cap \<Longrightarrow> n \<le> length cap \<Longrightarrow> k (drop (length cap) s) \<noteq> None \<Longrightarrow>
     greedy n k s \<noteq> None"
proof (induction s arbitrary: n cap)
  case Nil
  then show ?case by auto
next
  case (Cons c cs)
  show ?case
  proof (cases cap)
    case Nil
    with Cons.prems show ?thesis by (auto split: option.splits)
  next
    case (Cons c' cap')
    with Cons.prems have c: "c' = c" "dot c" "prefix cap' cs" "list_all dot cap'" "n - 1 \<le> length cap'"
      "k (drop (length cap') cs) \<noteq> None" by auto
    from Cons.IH [OF c(3) c(4) c(5) c(6)] c(2) show ?thesis by (auto split: option.splits)
  qed
qed

lemma greedy_None:
  "(\<And>t. suffix t s \<Longrightarrow> k t = None) \<Longrightarrow> greedy n k s = None"
proof (induction s arbitrary: n)
  case Nil
  then show ?case by simp
next
  case (Cons c cs)
  have "greedy (n - 1) k cs = None"
    by (rule Cons.IH) (simp add: Cons.prems suffix_ConsI)
  moreover have "k (c # cs) = None" by (simp add: Cons.prems)
  ultimately show ?case by simp
qed

lemma greedy_exact:
  "list_all dot cap \<Longrightarrow> n \<le> length cap \<Longrightarrow> k rest = Some r \<Longrightarrow>
   (\<And>t. suffix t rest \<Longrightarrow> t \<noteq> rest \<Longrightarrow> k t = None) \<Longrightarrow>
     greedy n k (cap @ rest) = Some (cap, r)"
proof (induction cap arbitrary: n)
  case Nil
  show ?case
  proof (cases rest)
    case Nil
    with Nil.prems show ?thesis by simp
  next
    case (Cons c cs)
    have "greedy 0 k cs = None"
    proof (rule greedy_None)
      fix t assume t: "suffix t cs"
      then have "suffix t rest" "t \<noteq> rest"
        using Cons by (auto simp: suffix_ConsI dest: suffix_length_le)
      then show "k t = None" by (rule Nil.prems(4))
    qed
    with Nil.prems Cons show ?thesis by simp
  qed
next
  case (Cons c cap)
  have "greedy (n - 1) k (cap @ rest) = Some (cap, r)"
    using Cons.prems by (intro Cons.IH) auto
  with Cons.prems(1) show ?case by simp
qed

lemma matcher_sound:
  "matcher re s = Some (caps, rest) \<Longrightarrow> accepts re s caps rest"
proof (induction re arbitrary: s caps rest)
  case Nil
  then show ?case by auto
next
  case (Cons i re)
  show ?case
  proof (cases i)
    case (Lit l)
    with Cons.prems have "prefix l s" "matcher re (drop (length l) s) = Some (caps, rest)"
      by (auto split: if_splits)
    with Cons.IH Lit show ?thesis by simp
  next
    case (Group n)
    with Cons.prems obtain cap caps' where
      g: "greedy n (matcher re) s = Some (cap, caps', rest)" and caps: "caps = cap # caps'"
      by auto
    from greedy_sound [OF g] Cons.IH Group caps show ?thesis by simp
  qed
qed

lemma matcher_complete:
  "accepts re s caps rest \<Longrightarrow> matcher re s \<noteq> None"
proof (induction re s caps rest rule: accepts.induct)
  case (1 s caps rest)
  then show ?case by simp
next
  case (2 l re s caps rest)
  then show ?case by simp
next
  case (3 n re s rest)
  then show ?case by simp
next
  case (4 n re s cap caps rest)
  then have "greedy n (matcher re) s \<noteq> None"
    by (intro greedy_complete [of cap]) auto
  then show ?case by simp
qed

lemma accepts_suffix: "accepts re s caps rest \<Longrightarrow> suffix rest s"
proof (induction re s caps rest rule: accepts.induct)
  case (2 l re s caps rest)
  then have "suffix rest (drop (length l) s)" by simp
  then show ?case using suffix_drop suffix_order.trans by blast
next
  case (4 n re s cap caps rest)
  then have "suffix rest (drop (length cap) s)" by simp
  then show ?case using suffix_drop suffix_order.trans by blast
qed auto

lemma match_sound:
  "match re s = Some parts \<Longrightarrow>
     \<exists>pre whole caps rest. parts = whole # caps \<and> s = pre @ whole @ rest \<and> accepts re (whole @ rest) caps rest"
proof (induction s)
  case Nil
  then obtain caps rest where m: "matcher re [] = Some (caps, rest)" and p: "parts = [] # caps"
    by (auto split: option.splits)
  from matcher_sound [OF m] accepts_suffix [OF matcher_sound [OF m]] p show ?case by auto
next
  case (Cons c cs)
  show ?case
  proof (cases "matcher re (c # cs)")
    case None
    with Cons.prems have "match re cs = Some parts" by simp
    from Cons.IH [OF this] obtain pre whole caps rest where
      "parts = whole # caps" "cs = pre @ whole @ rest" "accepts re (whole @ rest) caps rest" by blast
    then have "parts = whole # caps \<and> c # cs = (c # pre) @ whole @ rest \<and> accepts re (whole @ rest) caps rest"
      by simp
    then show ?thesis by blast
  next
    case (Some a)
    then obtain caps rest where m: "matcher re (c # cs) = Some (caps, rest)" by (cases a) auto
    have acc: "accepts re (c # cs) caps rest" by (rule matcher_sound [OF m])
    from accepts_suffix [OF acc] obtain whole where w: "c # cs = whole @ rest" by (auto simp: suffix_def)
    then have "take (length (c # cs) - length rest) (c # cs) = whole" by simp
    with m Cons.prems have "parts = whole # caps" by simp
    with w acc have "parts = whole # caps \<and> c # cs = [] @ whole @ rest \<and> accepts re (whole @ rest) caps rest"
      by simp
    then show ?thesis by blast
  qed
qed

lemma match_complete:
  "accepts re t caps rest \<Longrightarrow> match re (pre @ t) \<noteq> None"
proof (induction pre)
  case Nil
  from matcher_complete [OF Nil] show ?case by (cases t) auto
next
  case (Cons c pre)
  then show ?case by (auto split: option.splits)
qed

section \<open>What parseLogMessage accepts\<close>

lemma accepts_LOG_REGEX:
  "accepts LOG_REGEX t caps rest \<longleftrightarrow>
     (\<exists>h r m d. caps = [h, r, m, d] \<and> fields_ok h r m d \<and> t = format_line h r m d @ rest)"
proof
  assume a: "accepts LOG_REGEX t caps rest"
  then obtain h c1 where c1: "caps = h # c1" by (cases caps) (auto simp: LOG_REGEX_def)
  with a obtain r c2 where c2: "c1 = r # c2" by (cases c1) (auto simp: LOG_REGEX_def)
  with a c1 obtain m c3 where c3: "c2 = m # c3" by (cases c2) (auto simp: LOG_REGEX_def)
  with a c1 c2 obtain d c4 where c4: "c3 = d # c4" by (cases c3) (auto simp: LOG_REGEX_def)
  from a c1 c2 c3 c4 have c5: "c4 = []" by (auto simp: LOG_REGEX_def)
  from a have "fields_ok h r m d \<and> t = format_line h r m d @ rest"
    unfolding c1 c2 c3 c4 c5 LOG_REGEX_def fields_ok_def format_line_def
    by (auto simp: prefix_def)
  with c1 c2 c3 c4 c5 show "\<exists>h r m d. caps = [h, r, m, d] \<and> fields_ok h r m d \<and> t = format_line h r m d @ rest"
    by blast
next
  assume "\<exists>h r m d. caps = [h, r, m, d] \<and> fields_ok h r m d \<and> t = format_line h r m d @ rest"
  then show "accepts LOG_REGEX t caps rest"
    by (auto simp: LOG_REGEX_def fields_ok_def format_line_def Suc_le_eq)
qed

lemma parseLogMessage_Some:
  assumes "parseLogMessage l = Some c"
  shows "fields_ok (sha c) (refName c) (summary c) (date c) \<and>
         (\<exists>pre post. l = pre @ format_line (sha c) (refName c) (summary c) (date c) @ post)"
proof -
  from assms obtain parts where m: "match LOG_REGEX l = Some parts"
    by (cases "match LOG_REGEX l") (auto simp: parseLogMessage_def)
  from match_sound [OF m] obtain pre whole caps rest where
    p: "parts = whole # caps" "l = pre @ whole @ rest" "accepts LOG_REGEX (whole @ rest) caps rest"
    by blast
  from p(3) obtain h r m' d where
    f: "caps = [h, r, m', d]" "fields_ok h r m' d" "whole @ rest = format_line h r m' d @ rest"
    unfolding accepts_LOG_REGEX by blast
  from assms m p(1) f(1) have c: "c = \<lparr>sha = h, refName = r, summary = m', date = d\<rparr>"
    by (simp add: parseLogMessage_def)
  from f(3) p(2) have "l = pre @ format_line h r m' d @ rest" by simp
  with f(2) c show ?thesis by auto
qed

lemma parseLogMessage_None_iff: "parseLogMessage l = None \<longleftrightarrow> \<not> contains_format l"
proof
  assume n: "parseLogMessage l = None"
  show "\<not> contains_format l"
  proof
    assume "contains_format l"
    then obtain pre h r m d post where f: "fields_ok h r m d" "l = pre @ format_line h r m d @ post"
      unfolding contains_format_def by blast
    from f(1) have "accepts LOG_REGEX (format_line h r m d @ post) [h, r, m, d] post"
      unfolding accepts_LOG_REGEX by blast
    from match_complete [OF this, of pre] f(2) obtain parts where m: "match LOG_REGEX l = Some parts"
      by auto
    from match_sound [OF m] have "parts \<noteq> []" by auto
    with m n show False by (simp add: parseLogMessage_def)
  qed
next
  assume c: "\<not> contains_format l"
  show "parseLogMessage l = None"
  proof (cases "parseLogMessage l")
    case None
    then show ?thesis .
  next
    case (Some c')
    from parseLogMessage_Some [OF Some] have "contains_format l"
      unfolding contains_format_def by blast
    with c show ?thesis by simp
  qed
qed

section \<open>Parsing a structured line\<close>

lemma suffix_skip:
  assumes "suffix t (xs @ ys)" "t \<noteq> []" "hd t \<notin> set xs"
  shows "suffix t ys"
proof -
  from assms(1) consider "suffix t ys" | xs' where "suffix xs' xs" "t = xs' @ ys"
    unfolding suffix_append by blast
  then show ?thesis
  proof cases
    case 1
    then show ?thesis .
  next
    case 2
    show ?thesis
    proof (cases xs')
      case Nil
      with 2 show ?thesis by simp
    next
      case (Cons a as)
      with 2 have "hd t \<in> set xs" by (auto simp: suffix_def)
      with assms(3) show ?thesis by simp
    qed
  qed
qed

lemma gt_tail_step:
  assumes "GT \<notin> set body" "GT \<notin> set f" "suffix t ((GT # body) @ f @ ys)" "t \<noteq> []" "hd t = GT"
  shows "t = (GT # body) @ f @ ys \<or> suffix t ys"
proof -
  from assms(3) have "t = (GT # body) @ f @ ys \<or> suffix t ((body @ f) @ ys)"
    by (auto simp: suffix_Cons)
  moreover have "hd t \<notin> set (body @ f)" using assms by simp
  ultimately show ?thesis using suffix_skip [OF _ assms(4)] by blast
qed

lemma sep_ref: "js ''> ref<'' = GT # js '' ref<''" "GT \<notin> set (js '' ref<'')"
  by (simp_all add: js_def GT_def)

lemma sep_message: "js ''> message<'' = GT # js '' message<''" "GT \<notin> set (js '' message<'')"
  by (simp_all add: js_def GT_def)

lemma sep_date: "js ''> date<'' = GT # js '' date<''" "GT \<notin> set (js '' date<'')"
  by (simp_all add: js_def GT_def)

lemma sep_close: "js ''>'' = [GT]"
  by (simp add: js_def GT_def)

lemma tails_close: "suffix t (js ''>'') \<Longrightarrow> t \<noteq> [] \<Longrightarrow> t = js ''>''"
  by (auto simp: sep_close suffix_Cons)

lemma tails_date:
  assumes "GT \<notin> set d" "suffix t (js ''> date<'' @ d @ js ''>'')" "t \<noteq> []" "hd t = GT"
  shows "t = js ''> date<'' @ d @ js ''>'' \<or> t = js ''>''"
  using gt_tail_step [OF sep_date(2) assms(1), of t "js ''>''"] assms tails_close
  by (auto simp: sep_date(1))

lemma tails_message:
  assumes "GT \<notin> set m" "GT \<notin> set d"
    "suffix t (js ''> message<'' @ m @ js ''> date<'' @ d @ js ''>'')" "t \<noteq> []" "hd t = GT"
  shows "t = js ''> message<'' @ m @ js ''> date<'' @ d @ js ''>'' \<or>
         t = js ''> date<'' @ d @ js ''>'' \<or> t = js ''>''"
  using gt_tail_step [OF sep_message(2) assms(1), of t "js ''> date<'' @ d @ js ''>''"] assms
    tails_date [of d t]
  by (auto simp: sep_message(1))

lemma tails_ref:
  assumes "GT \<notin> set r" "GT \<notin> set m" "GT \<notin> set d"
    "suffix t (js ''> ref<'' @ r @ js ''> message<'' @ m @ js ''> date<'' @ d @ js ''>'')"
    "t \<noteq> []" "hd t = GT"
  shows "t = js ''> ref<'' @ r @ js ''> message<'' @ m @ js ''> date<'' @ d @ js ''>'' \<or>
         t = js ''> message<'' @ m @ js ''> date<'' @ d @ js ''>'' \<or>
         t = js ''> date<'' @ d @ js ''>'' \<or> t = js ''>''"
  using gt_tail_step [OF sep_ref(2) assms(1), of t "js ''> message<'' @ m @ js ''> date<'' @ d @ js ''>''"]
    assms tails_message [of m d t]
  by (auto simp: sep_ref(1))

lemma prefix_starts_GT: "prefix (GT # l) t \<Longrightarrow> t \<noteq> [] \<and> hd t = GT"
  by (auto simp: prefix_def)

lemma not_prefix_seps:
  "\<not> prefix (js ''> date<'') (js ''>'')"
  "\<not> prefix (js ''> message<'') (js ''>'')"
  "\<not> prefix (js ''> ref<'') (js ''>'')"
  "\<not> prefix (js ''> message<'') (js ''> date<'' @ x)"
  "\<not> prefix (js ''> ref<'') (js ''> date<'' @ x)"
  "\<not> prefix (js ''> ref<'') (js ''> message<'' @ x)"
  by (simp_all add: js_def)

lemma matcher_close:
  assumes "list_all dot d"
  shows "matcher [Group 0, Lit (js ''>'')] (d @ js ''>'') = Some ([d], [])"
proof -
  let ?k = "matcher [Lit (js ''>'')]"
  have k: "?k (js ''>'') = Some ([], [])" by simp
  have "greedy 0 ?k (d @ js ''>'') = Some (d, [], [])"
  proof (rule greedy_exact [where k = "?k", OF assms _ k])
    fix t assume "suffix t (js ''>'')" "t \<noteq> js ''>''"
    with tails_close [of t] have "t = []" by blast
    then show "?k t = None" by (simp add: sep_close)
  qed simp
  then show ?thesis by simp
qed

lemma matcher_date:
  assumes "list_all dot m" "list_all dot d" "GT \<notin> set d"
  shows "matcher [Group 0, Lit (js ''> date<''), Group 0, Lit (js ''>'')]
           (m @ js ''> date<'' @ d @ js ''>'') = Some ([m, d], [])"
proof -
  let ?k = "matcher [Lit (js ''> date<''), Group 0, Lit (js ''>'')]"
  have k: "?k (js ''> date<'' @ d @ js ''>'') = Some ([d], [])"
    using matcher_close [OF assms(2)] by simp
  have "greedy 0 ?k (m @ js ''> date<'' @ d @ js ''>'') = Some (m, [d], [])"
  proof (rule greedy_exact [where k = "?k", OF assms(1) _ k])
    fix t assume t: "suffix t (js ''> date<'' @ d @ js ''>'')" "t \<noteq> js ''> date<'' @ d @ js ''>''"
    have "\<not> prefix (js ''> date<'') t"
    proof
      assume p: "prefix (js ''> date<'') t"
      then have "t \<noteq> [] \<and> hd t = GT" using prefix_starts_GT by (simp add: sep_date(1))
      with tails_date [OF assms(3) t(1)] t(2) have "t = js ''>''" by blast
      with p not_prefix_seps(1) show False by simp
    qed
    then show "?k t = None" by simp
  qed simp
  then show ?thesis by simp
qed

lemma matcher_message:
  assumes "list_all dot r" "list_all dot m" "list_all dot d" "GT \<notin> set m" "GT \<notin> set d"
  shows "matcher [Group 0, Lit (js ''> message<''), Group 0, Lit (js ''> date<''), Group 0, Lit (js ''>'')]
           (r @ js ''> message<'' @ m @ js ''> date<'' @ d @ js ''>'') = Some ([r, m, d], [])"
proof -
  let ?k = "matcher [Lit (js ''> message<''), Group 0, Lit (js ''> date<''), Group 0, Lit (js ''>'')]"
  let ?T = "js ''> message<'' @ m @ js ''> date<'' @ d @ js ''>''"
  have k: "?k ?T = Some ([m, d], [])"
    using matcher_date [OF assms(2) assms(3) assms(5)] by simp
  have "greedy 0 ?k (r @ ?T) = Some (r, [m, d], [])"
  proof (rule greedy_exact [where k = "?k", OF assms(1) _ k])
    fix t assume t: "suffix t ?T" "t \<noteq> ?T"
    have "\<not> prefix (js ''> message<'') t"
    proof
      assume p: "prefix (js ''> message<'') t"
      then have "t \<noteq> [] \<and> hd t = GT" using prefix_starts_GT by (simp add: sep_message(1))
      with tails_message [OF assms(4) assms(5) t(1)] t(2)
      have "t = js ''> date<'' @ d @ js ''>'' \<or> t = js ''>''" by blast
      with p not_prefix_seps(2) not_prefix_seps(4) show False by auto
    qed
    then show "?k t = None" by simp
  qed simp
  then show ?thesis by simp
qed

lemma matcher_LOG_REGEX:
  assumes "fields_ok h r m d" "GT \<notin> set r" "GT \<notin> set m" "GT \<notin> set d"
  shows "matcher LOG_REGEX (format_line h r m d) = Some ([h, r, m, d], [])"
proof -
  let ?k = "matcher [Lit (js ''> ref<''), Group 0, Lit (js ''> message<''), Group 0,
                     Lit (js ''> date<''), Group 0, Lit (js ''>'')]"
  let ?T = "js ''> ref<'' @ r @ js ''> message<'' @ m @ js ''> date<'' @ d @ js ''>''"
  from assms(1) have ok: "h \<noteq> []" "list_all dot h" "list_all dot r" "list_all dot m" "list_all dot d"
    by (simp_all add: fields_ok_def)
  have k: "?k ?T = Some ([r, m, d], [])"
    using matcher_message [OF ok(3) ok(4) ok(5) assms(3) assms(4)] by simp
  have "greedy 1 ?k (h @ ?T) = Some (h, [r, m, d], [])"
  proof (rule greedy_exact [where k = "?k", OF ok(2) _ k])
    fix t assume t: "suffix t ?T" "t \<noteq> ?T"
    have "\<not> prefix (js ''> ref<'') t"
    proof
      assume p: "prefix (js ''> ref<'') t"
      then have "t \<noteq> [] \<and> hd t = GT" using prefix_starts_GT by (simp add: sep_ref(1))
      with tails_ref [OF assms(2) assms(3) assms(4) t(1)] t(2)
      have "t = js ''> message<'' @ m @ js ''> date<'' @ d @ js ''>'' \<or>
            t = js ''> date<'' @ d @ js ''>'' \<or> t = js ''>''" by blast
      with p not_prefix_seps(3) not_prefix_seps(5) not_prefix_seps(6) show False by auto
    qed
    then show "?k t = None" by simp
  next
    from ok(1) show "1 \<le> length h" by (cases h) auto
  qed
  then show ?thesis by (simp add: LOG_REGEX_def format_line_def)
qed

lemma match_LOG_REGEX:
  assumes "fields_ok h r m d" "GT \<notin> set r" "GT \<notin> set m" "GT \<notin> set d"
  shows "match LOG_REGEX (format_line h r m d) = Some [format_line h r m d, h, r, m, d]"
proof -
  obtain c cs where l: "format_line h r m d = c # cs"
    by (cases "format_line h r m d") (auto simp: format_line_def js_def)
  from matcher_LOG_REGEX [OF assms] show ?thesis
    unfolding l by simp
qed

section \<open>The calls of listCommits\<close>

lemma join_split: "join sep (split sep s) = s"
  by (simp add: split_def join_split_from)

lemma split_no_sep: "l \<in> set (split sep s) \<Longrightarrow> sep \<notin> set l"
  using split_from_no_sep [of sep "[]" l s] by (simp add: split_def)

lemma array_includes_iff: "array_includes xs x \<longleftrightarrow> x \<in> set xs"
  by (induction xs) auto

lemma dupArgs_inj: "dupArgs b = dupArgs b' \<longleftrightarrow> b = b'"
  by (simp add: dupArgs_def)

lemma dupArgs_not_fetch: "dupArgs b \<noteq> fetchArgs" "fetchArgs \<noteq> dupArgs b"
  by (simp_all add: dupArgs_def fetchArgs_def)

lemma rangeArgs_not_fetch: "rangeArgs f t \<noteq> fetchArgs" "fetchArgs \<noteq> rangeArgs f t"
  by (simp_all add: rangeArgs_def fetchArgs_def)

lemma dupArgs_not_range: "dupArgs b \<noteq> rangeArgs f t" "rangeArgs f t \<noteq> dupArgs b"
  by (simp_all add: dupArgs_def rangeArgs_def)

lemma filter_Boolean_list_all2:
  "list_all2 (\<lambda>l c. f l = Some c) (filter (\<lambda>l. f l \<noteq> None) ls) (filter_Boolean (map f ls))"
  by (induction ls) (auto split: option.splits)

lemma set_filter_Boolean: "set (filter_Boolean xs) = {y. Some y \<in> set xs}"
  by (induction xs) (auto split: option.splits)

lemma length_filter_Boolean: "length (filter_Boolean (map f ls)) = length (filter (\<lambda>l. f l \<noteq> None) ls)"
  by (induction ls) (auto split: option.splits)

lemma dupCheck_Inr_calls:
  assumes "dupCheck git bs t w = (Inr t', w', cs)"
  shows "(\<forall>b\<in>set bs. \<exists>out. (dupArgs b, Inr out) \<in> set cs)"
    and "(\<forall>c\<in>set cs. \<exists>b\<in>set bs. \<exists>out. c = (dupArgs b, Inr out))"
    and "set t' = set t \<union> {s. excluded cs s}"
  using assms
proof (induction bs arbitrary: t w cs)
  case Nil
  { case 1 then show ?case by simp }
  { case 2 then show ?case by simp }
  { case 3 then show ?case by (simp add: excluded_def) }
next
  case (Cons b bs)
  { case 1
    from 1 obtain out w1 cs' where
      d: "dupCheck git bs (t @ filter Boolean (split NL out)) w1 = (Inr t', w', cs')" and
      cs: "cs = (dupArgs b, Inr out) # cs'"
      by (auto simp: execa_def split: prod.splits sum.splits)
    from Cons.IH(1) [OF d] cs show ?case by auto }
  { case 2
    from 2 obtain out w1 cs' where
      d: "dupCheck git bs (t @ filter Boolean (split NL out)) w1 = (Inr t', w', cs')" and
      cs: "cs = (dupArgs b, Inr out) # cs'"
      by (auto simp: execa_def split: prod.splits sum.splits)
    from Cons.IH(2) [OF d] cs show ?case by auto }
  { case 3
    from 3 obtain out w1 cs' where
      d: "dupCheck git bs (t @ filter Boolean (split NL out)) w1 = (Inr t', w', cs')" and
      cs: "cs = (dupArgs b, Inr out) # cs'"
      by (auto simp: execa_def split: prod.splits sum.splits)
    from Cons.IH(3) [OF d] cs show ?case by (auto simp: excluded_def dupArgs_inj) }
qed

lemma dupCheck_Inl:
  "dupCheck git bs t w = (Inl e, w', cs) \<Longrightarrow> cs \<noteq> [] \<and> snd (last cs) = Inl e"
proof (induction bs arbitrary: t w cs)
  case Nil
  then show ?case by simp
next
  case (Cons b bs)
  show ?case
  proof (cases "fst (git w (dupArgs b))")
    case (Inl e')
    with Cons.prems show ?thesis by (auto simp: execa_def split: prod.splits)
  next
    case (Inr out)
    with Cons.prems obtain w1 cs' where
      d: "dupCheck git bs (t @ filter Boolean (split NL out)) w1 = (Inl e, w', cs')" and
      cs: "cs = (dupArgs b, Inr out) # cs'"
      by (auto simp: execa_def split: prod.splits sum.splits)
    from Cons.IH [OF d] cs show ?thesis by simp
  qed
qed

lemma dupCheck_calls_dup:
  "dupCheck git bs t w = (res, w', cs) \<Longrightarrow> \<forall>c\<in>set cs. fst c \<noteq> fetchArgs"
proof (induction bs arbitrary: t w cs)
  case Nil
  then show ?case by simp
next
  case (Cons b bs)
  show ?case
  proof (cases "fst (git w (dupArgs b))")
    case (Inl e')
    with Cons.prems show ?thesis by (auto simp: execa_def dupArgs_not_fetch split: prod.splits)
  next
    case (Inr out)
    with Cons.prems obtain w1 cs' where
      d: "dupCheck git bs (t @ filter Boolean (split NL out)) w1 = (res, w', cs')" and
      cs: "cs = (dupArgs b, Inr out) # cs'"
      by (auto simp: execa_def split: prod.splits sum.splits)
    from Cons.IH [OF d] cs show ?thesis by (auto simp: dupArgs_not_fetch)
  qed
qed

lemma listCommits_Inr:
  assumes "listCommits git from to dup w = (Inr rs, w', calls)"
  shows "\<exists>out w1 t w2 cs raw.
           git w fetchArgs = (Inr out, w1) \<and>
           dupCheck git (branches_default dup) [] w1 = (Inr t, w2, cs) \<and>
           git w2 (rangeArgs from (to_default to)) = (Inr raw, w') \<and>
           calls = (fetchArgs, Inr out) # cs @ [(rangeArgs from (to_default to), Inr raw)] \<and>
           rs = filter (\<lambda>c. summary c \<notin> set t)
                  (filter_Boolean (map parseLogMessage (filter Boolean (split NL raw))))"
  using assms unfolding listCommits_def Let_def execa_def
  by (auto split: prod.splits sum.splits simp: array_includes_iff)

lemma listCommits_Inl:
  assumes "listCommits git from to dup w = (Inl e, w', calls)"
  shows "calls \<noteq> [] \<and> snd (last calls) = Inl e"
  using assms unfolding listCommits_def Let_def execa_def
  by (auto split: prod.splits sum.splits dest: dupCheck_Inl)

lemma listCommits_calls:
  assumes "listCommits git from to dup w = (res, w', calls)"
  shows "\<exists>r cs. calls = (fetchArgs, r) # cs \<and> fst (git w fetchArgs) = r \<and> (\<forall>c\<in>set cs. fst c \<noteq> fetchArgs)
            \<and> (\<forall>e. r = Inl e \<longrightarrow> cs = [] \<and> res = Inl e)"
  using assms unfolding listCommits_def Let_def execa_def
  by (auto split: prod.splits sum.splits dest!: dupCheck_calls_dup simp: rangeArgs_not_fetch)

section \<open>Auxiliary facts for the properties\<close>

lemma contains_format_iff: "contains_format l \<longleftrightarrow> parseLogMessage l \<noteq> None"
  using parseLogMessage_None_iff [of l] by auto

lemma Boolean_eq: "Boolean = (\<lambda>l. l \<noteq> [])"
  by (simp add: fun_eq_iff Boolean_def)

lemma contains_format_nonempty: "contains_format l \<Longrightarrow> l \<noteq> []"
  by (auto simp: contains_format_def format_line_def js_def)

lemma filter_contains_format:
  "filter (\<lambda>l. parseLogMessage l \<noteq> None) (filter Boolean ls) = filter contains_format ls"
proof -
  have "(Boolean l \<and> parseLogMessage l \<noteq> None) = contains_format l" for l
    using contains_format_nonempty [of l] by (auto simp: contains_format_iff Boolean_def)
  then show ?thesis by (simp add: conj_commute)
qed

lemma excluded_calls:
  "excluded ((fetchArgs, x) # cs @ [(rangeArgs f t, y)]) s = excluded cs s"
  by (auto simp: excluded_def dupArgs_not_fetch dupArgs_not_range)

lemmas example_defs = listCommits_def example_git_def example_log_def execa_def fetchArgs_def dupArgs_def
  rangeArgs_def tagArgs_def to_default_def branches_default_def js_def NL_def split_def Boolean_def
  parseLogMessage_def LOG_REGEX_def dot_def example_fix_def example_backport_def example_calls_def

lemma example_run:
  "listCommits example_git (js ''v1.0.0'') (Some (js ''v1.1.0'')) (Some [js ''release-1.x'']) () =
     (Inr [example_fix], (), example_calls)"
  by (simp add: example_defs)

lemma example_run_default:
  "listCommits example_git (js ''v1.0.0'') (Some (js ''v1.1.0'')) None () =
     (Inr [example_fix, example_backport], (),
      [(fetchArgs, Inr (js '''')), (rangeArgs (js ''v1.0.0'') (js ''v1.1.0''), Inr example_log)])"
  by (simp add: example_defs)

lemma example_run_two:
  "listCommits example_git (js ''v1.0.0'') (Some (js ''v1.1.0'')) (Some [js ''release-1.x'', js ''release-2.x'']) () =
     (Inr [example_fix], (),
      [(fetchArgs, Inr (js '''')),
       (dupArgs (js ''release-1.x''), Inr (js ''Backport: fix bug'')),
       (dupArgs (js ''release-2.x''), Inr (js ''Bump deps'')),
       (rangeArgs (js ''v1.0.0'') (js ''v1.1.0''), Inr example_log)])"
  by (simp add: example_defs)

lemma example_run_empty:
  "listCommits example_git (js ''v1.1.0'') None None () =
     (Inr [], (), [(fetchArgs, Inr (js '''')), (rangeArgs (js ''v1.1.0'') (js ''''), Inr (js ''''))])"
  by (simp add: example_defs)

lemma embedded_run:
  "fst (listCommits embedded_git (js ''v1'') None None ()) =
     Inr [\<lparr>sha = js ''a1'', refName = js '''', summary = js ''m'', date = js ''d''\<rparr>]"
  by (simp add: example_defs embedded_git_def embedded_line_def)

lemma embedded_not_conforms: "\<not> conforms embedded_line"
  by (auto simp: conforms_def format_line_def embedded_line_def js_def)

lemma dupCheck_pure_Inr:
  assumes "queries_pure git" "dupCheck git bs t w = (Inr t', w', cs)"
  shows "w' = w \<and> (\<forall>b\<in>set bs. \<exists>out. git w (dupArgs b) = (Inr out, w)) \<and>
         set t' = set t \<union> {s. \<exists>b\<in>set bs. \<exists>out. git w (dupArgs b) = (Inr out, w) \<and>
                                 s \<in> set (filter Boolean (split NL out))}"
  using assms(2)
proof (induction bs arbitrary: t cs)
  case Nil
  then show ?case by simp
next
  case (Cons b bs)
  from Cons.prems obtain out w1 cs' where
    g: "git w (dupArgs b) = (Inr out, w1)" and
    d: "dupCheck git bs (t @ filter Boolean (split NL out)) w1 = (Inr t', w', cs')"
    by (auto simp: execa_def split: prod.splits sum.splits)
  from assms(1) g have w1: "w1 = w"
    using dupArgs_not_fetch(1) [of b] unfolding queries_pure_def by (metis snd_conv)
  from Cons.IH [OF d [unfolded w1]] g w1 show ?case by auto
qed

lemma dupCheck_pure_ex:
  assumes "queries_pure git" "\<forall>b\<in>set bs. \<exists>out. git w (dupArgs b) = (Inr out, w)"
  shows "\<exists>t' cs. dupCheck git bs t w = (Inr t', w, cs)"
  using assms(2)
proof (induction bs arbitrary: t)
  case Nil
  then show ?case by simp
next
  case (Cons b bs)
  from Cons.prems obtain out where g: "git w (dupArgs b) = (Inr out, w)" by auto
  from Cons.prems have "\<forall>b\<in>set bs. \<exists>out. git w (dupArgs b) = (Inr out, w)" by simp
  from Cons.IH [OF this, of "t @ filter Boolean (split NL out)"] obtain t' cs where
    "dupCheck git bs (t @ filter Boolean (split NL out)) w = (Inr t', w, cs)" by blast
  with g show ?case by (simp add: execa_def)
qed

lemma example_git_pure: "queries_pure example_git"
  by (simp add: queries_pure_def example_git_def)

lemma conforms_contains: "conforms l \<Longrightarrow> contains_format l"
proof -
  assume "conforms l"
  then obtain h r m d where "fields_ok h r m d" "l = [] @ format_line h r m d @ []"
    unfolding conforms_def by auto
  then show ?thesis unfolding contains_format_def by blast
qed

lemma filter_conforms: "filter conforms ls = filter conforms (filter contains_format ls)"
proof -
  have "(contains_format l \<and> conforms l) = conforms l" for l
    using conforms_contains [of l] by blast
  then show ?thesis by simp
qed

lemma replay_append:
  "replay git w (xs @ ys) =
     (case replay git w xs of (cs, w1) \<Rightarrow> (case replay git w1 ys of (cs', w2) \<Rightarrow> (cs @ cs', w2)))"
  by (induction xs arbitrary: w) (auto split: prod.splits)

lemma dupCheck_replay:
  "dupCheck git bs t w = (res, w', cs) \<Longrightarrow>
     replay git w (map fst cs) = (cs, w') \<and> prefix (map fst cs) (map dupArgs bs) \<and>
     (\<forall>t'. res = Inr t' \<longrightarrow> map fst cs = map dupArgs bs)"
proof (induction bs arbitrary: t w cs)
  case Nil
  then show ?case by simp
next
  case (Cons b bs)
  show ?case
  proof (cases "fst (git w (dupArgs b))")
    case (Inl e)
    with Cons.prems show ?thesis by (auto simp: execa_def split: prod.splits)
  next
    case (Inr out)
    with Cons.prems obtain w1 cs' where
      g: "git w (dupArgs b) = (Inr out, w1)" and
      d: "dupCheck git bs (t @ filter Boolean (split NL out)) w1 = (res, w', cs')" and
      cs: "cs = (dupArgs b, Inr out) # cs'"
      by (auto simp: execa_def split: prod.splits sum.splits)
    from Cons.IH [OF d] g cs show ?thesis by simp
  qed
qed

lemma listCommits_replay:
  assumes "listCommits git from to dup w = (res, w', calls)"
  shows "replay git w (map fst calls) = (calls, w') \<and>
         prefix (map fst calls)
           (fetchArgs # map dupArgs (branches_default dup) @ [rangeArgs from (to_default to)]) \<and>
         (\<forall>rs. res = Inr rs \<longrightarrow>
            map fst calls =
              fetchArgs # map dupArgs (branches_default dup) @ [rangeArgs from (to_default to)])"
proof (cases "git w fetchArgs")
  case (Pair r w1)
  show ?thesis
  proof (cases r)
    case (Inl e)
    with Pair assms show ?thesis by (auto simp: listCommits_def execa_def)
  next
    case (Inr out)
    obtain dres w2 cs2 where d: "dupCheck git (branches_default dup) [] w1 = (dres, w2, cs2)"
      by (cases "dupCheck git (branches_default dup) [] w1") auto
    note dr = dupCheck_replay [OF d]
    show ?thesis
    proof (cases dres)
      case (Inl e)
      with Pair Inr d assms have c: "calls = (fetchArgs, Inr out) # cs2" "w' = w2" "res = Inl e"
        by (auto simp: listCommits_def execa_def)
      from dr have "prefix (map fst cs2)
          (map dupArgs (branches_default dup) @ [rangeArgs from (to_default to)])"
        by (simp add: prefix_prefix)
      with c dr Pair Inr show ?thesis by simp
    next
      case t: (Inr t)
      obtain rr w3 where g: "git w2 (rangeArgs from (to_default to)) = (rr, w3)"
        by (cases "git w2 (rangeArgs from (to_default to))") auto
      with Pair Inr d t assms have
        c: "calls = (fetchArgs, Inr out) # cs2 @ [(rangeArgs from (to_default to), rr)]" "w' = w3"
        by (auto simp: listCommits_def execa_def Let_def split: sum.splits)
      from dr t have m: "map fst cs2 = map dupArgs (branches_default dup)" by simp
      from dr have "replay git w1 (map fst cs2) = (cs2, w2)" by simp
      with g have "replay git w1 (map fst cs2 @ [rangeArgs from (to_default to)]) =
          (cs2 @ [(rangeArgs from (to_default to), rr)], w3)"
        by (simp add: replay_append)
      with c m Pair Inr show ?thesis by simp
    qed
  qed
qed

lemma fetched_run:
  "listCommits fetched_git (js ''v1.0.0'') (Some (js ''v1.1.0'')) (Some [js ''release-1.x'']) False =
     (Inr [example_fix], True, example_calls)"
  by (simp add: example_defs fetched_git_def)

lemma subseq_conforms: "subseq (filter conforms ls) (filter contains_format ls)"
proof -
  have "subseq (filter conforms (filter contains_format ls)) (filter contains_format ls)"
    by (rule subseq_filter_left)
  then show ?thesis by (simp only: filter_conforms [symmetric])
qed

lemma embedded_split: "split NL embedded_line = [embedded_line]"
  by (simp add: embedded_line_def js_def split_def NL_def)

lemma embedded_run_calls:
  "listCommits embedded_git (js ''v1'') None None () =
     (Inr [\<lparr>sha = js ''a1'', refName = js '''', summary = js ''m'', date = js ''d''\<rparr>], (),
      [(fetchArgs, Inr embedded_line), (rangeArgs (js ''v1'') (js ''''), Inr embedded_line)])"
  by (simp add: example_defs embedded_git_def embedded_line_def)

lemma embedded_run_empty_branches:
  "listCommits embedded_git (js ''v1'') None (Some []) () =
     (Inr [\<lparr>sha = js ''a1'', refName = js '''', summary = js ''m'', date = js ''d''\<rparr>], (),
      [(fetchArgs, Inr embedded_line), (rangeArgs (js ''v1'') (js ''''), Inr embedded_line)])"
  by (simp add: example_defs embedded_git_def embedded_line_def)

section \<open>The properties\<close>

text \<open>
  Claim C1. Whenever \<^verbatim>\<open>listCommits(from, to, branches)\<close> returns, a query of the range
  \<^verbatim>\<open>origin/master..origin/<branch>\<close> was made for every listed branch and for no other,
  and no returned record has a summary equal to a non-blank line that one of these
  queries printed. The filter looks at the summary text only: a record parsed from a
  line of the range output is returned exactly when its summary is not such a line,
  whatever its hash. This holds for every branch list, the non-empty ones included.
\<close>

theorem listCommits_excludes_duplicates:
  assumes "listCommits git from to (Some bs) w = (Inr rs, w', calls)"
  shows "(\<forall>b\<in>set bs. \<exists>out. (dupArgs b, Inr out) \<in> set calls) \<and>
         (\<forall>b out. (dupArgs b, Inr out) \<in> set calls \<longrightarrow> b \<in> set bs) \<and>
         (\<forall>c\<in>set rs. \<not> excluded calls (summary c)) \<and>
         (\<exists>raw. last calls = (rangeArgs from (to_default to), Inr raw) \<and>
            (\<forall>l\<in>set (split NL raw). \<forall>c. parseLogMessage l = Some c \<longrightarrow>
               (c \<in> set rs \<longleftrightarrow> \<not> excluded calls (summary c))))"
proof -
  from listCommits_Inr [OF assms] obtain out w1 t w2 cs raw where
    d: "dupCheck git bs [] w1 = (Inr t, w2, cs)" and
    calls: "calls = (fetchArgs, Inr out) # cs @ [(rangeArgs from (to_default to), Inr raw)]" and
    rs: "rs = filter (\<lambda>c. summary c \<notin> set t)
           (filter_Boolean (map parseLogMessage (filter Boolean (split NL raw))))"
    by (auto simp: branches_default_def)
  note dc = dupCheck_Inr_calls [OF d]
  from dc(3) have t: "s \<in> set t \<longleftrightarrow> excluded calls s" for s
    by (simp add: calls excluded_calls)
  have 1: "\<forall>b\<in>set bs. \<exists>out. (dupArgs b, Inr out) \<in> set calls"
    using dc(1) calls by auto
  have 2: "\<forall>b out. (dupArgs b, Inr out) \<in> set calls \<longrightarrow> b \<in> set bs"
    using dc(2) calls by (auto simp: dupArgs_not_fetch dupArgs_not_range dupArgs_inj)
  have 3: "\<forall>c\<in>set rs. \<not> excluded calls (summary c)"
    using rs t by auto
  have 4: "\<forall>l\<in>set (split NL raw). \<forall>c. parseLogMessage l = Some c \<longrightarrow>
               (c \<in> set rs \<longleftrightarrow> \<not> excluded calls (summary c))"
  proof (intro ballI allI impI)
    fix l c assume l: "l \<in> set (split NL raw)" and p: "parseLogMessage l = Some c"
    from p have "contains_format l" by (simp add: contains_format_iff)
    then have "Boolean l" using contains_format_nonempty by (simp add: Boolean_def)
    with l p have "Some c \<in> set (map parseLogMessage (filter Boolean (split NL raw)))"
      by (force simp: image_iff)
    then have "c \<in> set (filter_Boolean (map parseLogMessage (filter Boolean (split NL raw))))"
      by (simp add: set_filter_Boolean)
    then show "c \<in> set rs \<longleftrightarrow> \<not> excluded calls (summary c)"
      using rs t by auto
  qed
  from calls have "last calls = (rangeArgs from (to_default to), Inr raw)" by simp
  with 1 2 3 4 show ?thesis by blast
qed

text \<open>
  In the example repository the backported commit is excluded and the fix is kept.
\<close>

theorem listCommits_excludes_duplicates_witness:
  "listCommits example_git (js ''v1.0.0'') (Some (js ''v1.1.0'')) (Some [js ''release-1.x'']) () =
     (Inr [example_fix], (), example_calls) \<and>
   (dupArgs (js ''release-1.x''), Inr (js ''Backport: fix bug'')) \<in> set example_calls \<and>
   excluded example_calls (summary example_backport) \<and>
   \<not> excluded example_calls (summary example_fix)"
proof -
  note t = listCommits_excludes_duplicates [OF example_run]
  from t have "\<forall>c\<in>set [example_fix]. \<not> excluded example_calls (summary c)" by blast
  then have 1: "\<not> excluded example_calls (summary example_fix)" by simp
  have 2: "(dupArgs (js ''release-1.x''), Inr (js ''Backport: fix bug'')) \<in> set example_calls"
    by (simp add: example_calls_def)
  have "summary example_backport \<in> set (filter Boolean (split NL (js ''Backport: fix bug'')))"
    by (simp add: example_backport_def split_def Boolean_def js_def NL_def)
  with 2 have 3: "excluded example_calls (summary example_backport)"
    unfolding excluded_def by blast
  from example_run 1 2 3 show ?thesis by simp
qed

text \<open>
  Claim C2, as amended. For any output of the range query, parsing raises nothing:
  \<^verbatim>\<open>listCommits\<close> fails only with the error of a failed call of the tool, and when the
  range query printed \<open>raw\<close> it returns. The parsed records are, one for one and in the
  order of the output, the parses of the lines in which the structured format occurs
  (the pattern is searched for anywhere in the line); every line in which it does not
  occur is absent. The lines that are structured lines as a whole are among the lines
  parsed, in their order. What is returned is the parsed list without the records the
  duplicate check excludes, and the whole list when there are no duplicate-check
  branches.
\<close>

theorem listCommits_lenient_parse:
  assumes "listCommits git from to dup w = (res, w', calls)"
  shows "(\<forall>e. res = Inl e \<longrightarrow> snd (last calls) = Inl e) \<and>
         (\<forall>raw. snd (last calls) = Inr raw \<longrightarrow>
            fst (last calls) = rangeArgs from (to_default to) \<and>
            subseq (filter conforms (split NL raw)) (filter contains_format (split NL raw)) \<and>
            (\<exists>parsed.
               list_all2 (\<lambda>l c. parseLogMessage l = Some c)
                 (filter contains_format (split NL raw)) parsed \<and>
               res = Inr (filter (\<lambda>c. \<not> excluded calls (summary c)) parsed) \<and>
               (branches_default dup = [] \<longrightarrow> res = Inr parsed)))"
proof (cases res)
  case (Inl e)
  with listCommits_Inl [of git "from" to dup w e w' calls] assms show ?thesis by auto
next
  case (Inr rs)
  from listCommits_Inr [OF assms [unfolded Inr]] obtain out w1 t w2 cs raw where
    d: "dupCheck git (branches_default dup) [] w1 = (Inr t, w2, cs)" and
    calls: "calls = (fetchArgs, Inr out) # cs @ [(rangeArgs from (to_default to), Inr raw)]" and
    rs: "rs = filter (\<lambda>c. summary c \<notin> set t)
           (filter_Boolean (map parseLogMessage (filter Boolean (split NL raw))))"
    by auto
  let ?parsed = "filter_Boolean (map parseLogMessage (filter Boolean (split NL raw)))"
  note dc = dupCheck_Inr_calls [OF d]
  from dc(3) have t: "s \<in> set t \<longleftrightarrow> excluded calls s" for s
    by (simp add: calls excluded_calls)
  have a: "list_all2 (\<lambda>l c. parseLogMessage l = Some c) (filter contains_format (split NL raw)) ?parsed"
    using filter_Boolean_list_all2 [of parseLogMessage "filter Boolean (split NL raw)"]
    by (simp only: filter_contains_format)
  have b: "res = Inr (filter (\<lambda>c. \<not> excluded calls (summary c)) ?parsed)"
    using rs t Inr by simp
  have c: "branches_default dup = [] \<longrightarrow> res = Inr ?parsed"
  proof
    assume "branches_default dup = []"
    with d have "t = []" by simp
    with rs Inr show "res = Inr ?parsed" by simp
  qed
  from calls have l: "last calls = (rangeArgs from (to_default to), Inr raw)" by simp
  show ?thesis
  proof (intro conjI allI impI)
    fix e assume "res = Inl e"
    with Inr show "snd (last calls) = Inl e" by simp
  next
    fix raw' assume "snd (last calls) = Inr raw'"
    with l show "fst (last calls) = rangeArgs from (to_default to)" by simp
  next
    fix raw' assume "snd (last calls) = Inr raw'"
    show "subseq (filter conforms (split NL raw')) (filter contains_format (split NL raw'))"
      by (rule subseq_conforms)
  next
    fix raw' assume "snd (last calls) = Inr raw'"
    with l have "raw' = raw" by simp
    with a b c show "\<exists>parsed.
               list_all2 (\<lambda>l c. parseLogMessage l = Some c)
                 (filter contains_format (split NL raw')) parsed \<and>
               res = Inr (filter (\<lambda>c. \<not> excluded calls (summary c)) parsed) \<and>
               (branches_default dup = [] \<longrightarrow> res = Inr parsed)" by blast
  qed
qed

text \<open>
  Claim C2 as stated fails when a line that does not match the structured format is one
  that is not a structured line as a whole: \<^verbatim>\<open>x hash<a1> ref<> message<m> date<d> y\<close> is
  no structured line, it is the only line of the range output, and its record is returned.
\<close>

theorem listCommits_keeps_nonconforming_line:
  "\<not> conforms embedded_line \<and>
   split NL embedded_line = [embedded_line] \<and>
   listCommits embedded_git (js ''v1'') None None () =
     (Inr [\<lparr>sha = js ''a1'', refName = js '''', summary = js ''m'', date = js ''d''\<rparr>], (),
      [(fetchArgs, Inr embedded_line), (rangeArgs (js ''v1'') (js ''''), Inr embedded_line)])"
  using embedded_not_conforms embedded_split embedded_run_calls by (simp only: simp_thms)

text \<open>
  In the example repository the truncated line and the blank line are dropped, and the
  two structured lines are parsed in order.
\<close>

theorem listCommits_lenient_parse_witness:
  "listCommits example_git (js ''v1.0.0'') (Some (js ''v1.1.0'')) None () =
     (Inr [example_fix, example_backport], (),
      [(fetchArgs, Inr (js '''')), (rangeArgs (js ''v1.0.0'') (js ''v1.1.0''), Inr example_log)]) \<and>
   list_all2 (\<lambda>l c. parseLogMessage l = Some c) (filter contains_format (split NL example_log))
     [example_fix, example_backport]"
proof -
  let ?calls = "[(fetchArgs, Inr (js '''')), (rangeArgs (js ''v1.0.0'') (js ''v1.1.0''), Inr example_log)]"
  have a: "snd (last ?calls) = Inr example_log" by simp
  have b: "branches_default None = []" by (simp add: branches_default_def)
  note t = listCommits_lenient_parse [OF example_run_default, THEN conjunct2, THEN spec,
      of example_log, THEN mp, OF a, THEN conjunct2]
  from t obtain parsed where
    p: "list_all2 (\<lambda>l c. parseLogMessage l = Some c) (filter contains_format (split NL example_log)) parsed"
    and q: "branches_default None = [] \<longrightarrow>
         (Inr [example_fix, example_backport] :: error + CommitListItem list) = Inr parsed"
    by (elim exE conjE)
  from q b have "parsed = [example_fix, example_backport]" by simp
  with p example_run_default show ?thesis by (simp only: simp_thms)
qed

text \<open>
  Claim C3. \<^verbatim>\<open>changedPaths\<close> splits the output at the line breaks and does not drop blank
  lines, as \<^verbatim>\<open>listTagNames\<close> and \<^verbatim>\<open>listCommits\<close> do: for a commit that touched no file the
  tool prints nothing, and the result is the one-element list holding the empty string,
  not the empty list.
\<close>

theorem changedPaths_no_files:
  "changedPaths (\<lambda>w args. (Inr (js ''''), w)) (js ''abc123'') () =
     (Inr [js ''''], (), [(showArgs (js ''abc123''), Inr (js ''''))])"
  by (simp add: changedPaths_def execa_def split_def js_def)

text \<open>
  Claim C4. A structured line built from four field values parses back to exactly these
  values, and serializing the parsed record with the same markers gives the line again,
  provided the values are ones that a line of the format can hold (a non-empty hash, no
  line terminator) and the closing delimiter \<^verbatim>\<open>>\<close> occurs in none of the fields after
  the hash. The hash itself may even contain it.
\<close>

theorem parseLogMessage_roundtrip:
  assumes "fields_ok h r m d" "GT \<notin> set r \<union> set m \<union> set d"
  shows "parseLogMessage (format_line h r m d) = Some \<lparr>sha = h, refName = r, summary = m, date = d\<rparr> \<and>
         map_option (\<lambda>c. format_line (sha c) (refName c) (summary c) (date c))
           (parseLogMessage (format_line h r m d)) = Some (format_line h r m d)"
proof -
  from assms(2) have "GT \<notin> set r" "GT \<notin> set m" "GT \<notin> set d" by auto
  from match_LOG_REGEX [OF assms(1) this]
  have "parseLogMessage (format_line h r m d) = Some \<lparr>sha = h, refName = r, summary = m, date = d\<rparr>"
    by (simp add: parseLogMessage_def)
  then show ?thesis by simp
qed

text \<open>The line of the specification's first scenario.\<close>

theorem parseLogMessage_roundtrip_witness:
  "fields_ok (js ''abc123'') (js ''tag: v1.2.0'') (js ''Fix bug'') (js ''2024-01-15'') \<and>
   GT \<notin> set (js ''tag: v1.2.0'') \<union> set (js ''Fix bug'') \<union> set (js ''2024-01-15'') \<and>
   parseLogMessage (js ''hash<abc123> ref<tag: v1.2.0> message<Fix bug> date<2024-01-15>'') =
     Some \<lparr>sha = js ''abc123'', refName = js ''tag: v1.2.0'', summary = js ''Fix bug'',
           date = js ''2024-01-15''\<rparr>"
proof -
  have f: "fields_ok (js ''abc123'') (js ''tag: v1.2.0'') (js ''Fix bug'') (js ''2024-01-15'')"
    by (simp add: fields_ok_def js_def dot_def)
  have g: "GT \<notin> set (js ''tag: v1.2.0'') \<union> set (js ''Fix bug'') \<union> set (js ''2024-01-15'')"
    by (simp add: js_def GT_def)
  have l: "format_line (js ''abc123'') (js ''tag: v1.2.0'') (js ''Fix bug'') (js ''2024-01-15'') =
           js ''hash<abc123> ref<tag: v1.2.0> message<Fix bug> date<2024-01-15>''"
    by (simp add: format_line_def js_def)
  from parseLogMessage_roundtrip [OF f g] f g show ?thesis unfolding l by simp
qed

text \<open>
  Claim C5, as amended. Every record that \<^verbatim>\<open>listCommits\<close> returns is the parse of a line
  of the range output in which the structured format occurs: the line is some text,
  then a structured line whose four fields are the record's, then some text. The
  pattern is not anchored, so the text before and after may be non-empty. The result
  holds records only, never \<^verbatim>\<open>null\<close>.
\<close>

theorem listCommits_records_from_pattern:
  assumes "listCommits git from to dup w = (Inr rs, w', calls)" "c \<in> set rs"
  shows "\<exists>raw l pre post.
           last calls = (rangeArgs from (to_default to), Inr raw) \<and> l \<in> set (split NL raw) \<and>
           parseLogMessage l = Some c \<and> fields_ok (sha c) (refName c) (summary c) (date c) \<and>
           l = pre @ format_line (sha c) (refName c) (summary c) (date c) @ post"
proof -
  from listCommits_Inr [OF assms(1)] obtain out cs raw t where
    calls: "calls = (fetchArgs, Inr out) # cs @ [(rangeArgs from (to_default to), Inr raw)]" and
    rs: "rs = filter (\<lambda>c. summary c \<notin> set t)
           (filter_Boolean (map parseLogMessage (filter Boolean (split NL raw))))"
    by auto
  from assms(2) rs have "Some c \<in> set (map parseLogMessage (filter Boolean (split NL raw)))"
    by (simp add: set_filter_Boolean)
  then obtain l where l: "l \<in> set (split NL raw)" "parseLogMessage l = Some c" by auto
  from parseLogMessage_Some [OF l(2)] obtain pre post where
    "fields_ok (sha c) (refName c) (summary c) (date c)"
    "l = pre @ format_line (sha c) (refName c) (summary c) (date c) @ post" by blast
  moreover from calls have "last calls = (rangeArgs from (to_default to), Inr raw)" by simp
  ultimately show ?thesis using l by blast
qed

text \<open>The record of the example repository comes from the first line of its log.\<close>

theorem listCommits_records_from_pattern_witness:
  "listCommits example_git (js ''v1.0.0'') (Some (js ''v1.1.0'')) (Some [js ''release-1.x'']) () =
     (Inr [example_fix], (), example_calls) \<and> example_fix \<in> set [example_fix] \<and>
   (\<exists>l pre post. l \<in> set (split NL example_log) \<and> parseLogMessage l = Some example_fix \<and>
      l = pre @ format_line (js ''abc123'') (js ''tag: v1.2.0'') (js ''Fix bug'') (js ''2024-01-15'') @ post)"
proof -
  have "example_fix \<in> set [example_fix]" by simp
  from listCommits_records_from_pattern [OF example_run this]
  have "\<exists>l pre post. l \<in> set (split NL example_log) \<and> parseLogMessage l = Some example_fix \<and>
      l = pre @ format_line (js ''abc123'') (js ''tag: v1.2.0'') (js ''Fix bug'') (js ''2024-01-15'') @ post"
    by (auto simp: example_calls_def example_fix_def)
  with example_run show ?thesis by simp
qed

text \<open>
  Claim C5 as stated fails: the line \<^verbatim>\<open>x hash<a1> ref<> message<m> date<d> y\<close> is not a
  structured line as a whole, and \<^verbatim>\<open>listCommits\<close> returns a record made from it.
\<close>

theorem listCommits_record_from_embedded_pattern:
  "fst (listCommits embedded_git (js ''v1'') None None ()) =
     Inr [\<lparr>sha = js ''a1'', refName = js '''', summary = js ''m'', date = js ''d''\<rparr>] \<and>
   snd (last (snd (snd (listCommits embedded_git (js ''v1'') None None ())))) = Inr embedded_line \<and>
   split NL embedded_line = [embedded_line] \<and>
   \<not> conforms embedded_line"
  using embedded_run embedded_not_conforms
  by (simp add: example_defs embedded_git_def embedded_line_def)

text \<open>
  Claim C6, as amended. Without duplicate-check branches (the argument left out, or the
  empty list) nothing is filtered: the number of records returned is the number of lines
  of the range output in which the structured format occurs, with or without text
  around it; so it is at least the number of lines that are structured lines as a whole.
\<close>

theorem listCommits_no_branches_keeps_all:
  assumes "listCommits git from to dup w = (Inr rs, w', calls)" "dup = None \<or> dup = Some []"
  shows "\<exists>raw. last calls = (rangeArgs from (to_default to), Inr raw) \<and>
           length rs = length (filter contains_format (split NL raw)) \<and>
           length (filter conforms (split NL raw)) \<le> length rs"
proof -
  from assms(2) have b: "branches_default dup = []" by (auto simp: branches_default_def)
  from listCommits_Inr [OF assms(1)] obtain out w1 t w2 cs raw where
    d: "dupCheck git (branches_default dup) [] w1 = (Inr t, w2, cs)" and
    calls: "calls = (fetchArgs, Inr out) # cs @ [(rangeArgs from (to_default to), Inr raw)]" and
    rs: "rs = filter (\<lambda>c. summary c \<notin> set t)
           (filter_Boolean (map parseLogMessage (filter Boolean (split NL raw))))"
    by auto
  from d b have "t = []" by simp
  with rs have "rs = filter_Boolean (map parseLogMessage (filter Boolean (split NL raw)))"
    by simp
  then have n: "length rs = length (filter contains_format (split NL raw))"
    by (simp only: length_filter_Boolean filter_contains_format)
  have "length (filter conforms (filter contains_format (split NL raw))) \<le>
        length (filter contains_format (split NL raw))"
    by (rule length_filter_le)
  with n have "length (filter conforms (split NL raw)) \<le> length rs"
    by (simp only: filter_conforms [symmetric])
  moreover from calls have "last calls = (rangeArgs from (to_default to), Inr raw)" by simp
  ultimately show ?thesis using n by blast
qed

text \<open>
  Claim C6 as stated fails when the well-formed lines are the lines that are structured
  lines as a whole: the range output \<^verbatim>\<open>x hash<a1> ref<> message<m> date<d> y\<close> has no
  such line, and with the empty branch list one record is returned.
\<close>

theorem listCommits_counts_nonconforming_line:
  "listCommits embedded_git (js ''v1'') None (Some []) () =
     (Inr [\<lparr>sha = js ''a1'', refName = js '''', summary = js ''m'', date = js ''d''\<rparr>], (),
      [(fetchArgs, Inr embedded_line), (rangeArgs (js ''v1'') (js ''''), Inr embedded_line)]) \<and>
   length (filter conforms (split NL embedded_line)) = 0"
proof -
  have "length (filter conforms (split NL embedded_line)) = 0"
    unfolding embedded_split using embedded_not_conforms by simp
  with embedded_run_empty_branches show ?thesis by (simp only: simp_thms)
qed

text \<open>Two of the four lines of the example log are structured, and two records are returned.\<close>

theorem listCommits_no_branches_keeps_all_witness:
  "listCommits example_git (js ''v1.0.0'') (Some (js ''v1.1.0'')) None () =
     (Inr [example_fix, example_backport], (),
      [(fetchArgs, Inr (js '''')), (rangeArgs (js ''v1.0.0'') (js ''v1.1.0''), Inr example_log)]) \<and>
   length (filter contains_format (split NL example_log)) = 2"
proof -
  from listCommits_no_branches_keeps_all [OF example_run_default]
  have "length [example_fix, example_backport] = length (filter contains_format (split NL example_log))"
    by auto
  with example_run_default show ?thesis by simp
qed

text \<open>
  Claim C7. When the tool answers its queries without changing the repository, the
  order of the duplicate-check branches does not matter: if \<^verbatim>\<open>listCommits\<close> returns a list
  of records for one branch list, it returns the same list, in the same order, for every
  permutation of the branch list.
\<close>

theorem listCommits_branch_order:
  assumes "queries_pure git" "mset bs = mset bs'"
    "listCommits git from to (Some bs) w = (Inr rs, w', calls)"
  shows "\<exists>calls'. listCommits git from to (Some bs') w = (Inr rs, w', calls')"
proof -
  from assms(2) have sets: "set bs = set bs'" by (rule mset_eq_setD)
  from listCommits_Inr [OF assms(3)] obtain out w1 t w2 cs raw where
    f: "git w fetchArgs = (Inr out, w1)" and
    d: "dupCheck git bs [] w1 = (Inr t, w2, cs)" and
    r: "git w2 (rangeArgs from (to_default to)) = (Inr raw, w')" and
    rs: "rs = filter (\<lambda>c. summary c \<notin> set t)
           (filter_Boolean (map parseLogMessage (filter Boolean (split NL raw))))"
    by (auto simp: branches_default_def)
  note p = dupCheck_pure_Inr [OF assms(1) d]
  from p have w2: "w2 = w1" by simp
  from p sets have "\<forall>b\<in>set bs'. \<exists>out. git w1 (dupArgs b) = (Inr out, w1)" by simp
  from dupCheck_pure_ex [OF assms(1) this, of "[]"] obtain t' cs' where
    d': "dupCheck git bs' [] w1 = (Inr t', w1, cs')" by blast
  from dupCheck_pure_Inr [OF assms(1) d'] p sets have "set t' = set t" by simp
  with rs have rs': "rs = filter (\<lambda>c. \<not> array_includes t' (summary c))
           (filter_Boolean (map parseLogMessage (filter Boolean (split NL raw))))"
    by (simp add: array_includes_iff)
  from f d' r [unfolded w2] rs' show ?thesis
    by (simp add: listCommits_def execa_def branches_default_def)
qed

text \<open>The two release branches of the example repository, in both orders.\<close>

theorem listCommits_branch_order_witness:
  "queries_pure example_git \<and>
   mset [js ''release-1.x'', js ''release-2.x''] = mset [js ''release-2.x'', js ''release-1.x''] \<and>
   fst (listCommits example_git (js ''v1.0.0'') (Some (js ''v1.1.0''))
          (Some [js ''release-1.x'', js ''release-2.x'']) ()) = Inr [example_fix] \<and>
   fst (listCommits example_git (js ''v1.0.0'') (Some (js ''v1.1.0''))
          (Some [js ''release-2.x'', js ''release-1.x'']) ()) = Inr [example_fix]"
proof -
  have m: "mset [js ''release-1.x'', js ''release-2.x''] = mset [js ''release-2.x'', js ''release-1.x'']"
    by (simp add: add.commute)
  from listCommits_branch_order [OF example_git_pure m example_run_two]
  show ?thesis using example_git_pure m example_run_two by auto
qed

text \<open>
  Claim C8. When the last call made is the range query and it printed nothing, the
  result is the empty list and not an error.
\<close>

theorem listCommits_empty_range:
  assumes "listCommits git from to dup w = (res, w', calls)"
    "last calls = (rangeArgs from (to_default to), Inr [])"
  shows "res = Inr []"
proof (cases res)
  case (Inl e)
  with listCommits_Inl [of git "from" to dup w e w' calls] assms show ?thesis by auto
next
  case (Inr rs)
  from listCommits_Inr [OF assms(1) [unfolded Inr]] obtain out cs raw t where
    calls: "calls = (fetchArgs, Inr out) # cs @ [(rangeArgs from (to_default to), Inr raw)]" and
    rs: "rs = filter (\<lambda>c. summary c \<notin> set t)
           (filter_Boolean (map parseLogMessage (filter Boolean (split NL raw))))"
    by auto
  from calls assms(2) have "raw = []" by simp
  with rs Inr show ?thesis by (simp add: split_def Boolean_def)
qed

text \<open>The empty range of the example repository.\<close>

theorem listCommits_empty_range_witness:
  "snd (snd (listCommits example_git (js ''v1.1.0'') None None ())) =
     [(fetchArgs, Inr (js '''')), (rangeArgs (js ''v1.1.0'') (js ''''), Inr (js ''''))] \<and>
   fst (listCommits example_git (js ''v1.1.0'') None None ()) = Inr []"
proof -
  have "last [(fetchArgs, Inr (js '''')), (rangeArgs (js ''v1.1.0'') (js ''''), Inr (js ''''))] =
          (rangeArgs (js ''v1.1.0'') (to_default None), Inr [] :: error + jsstring)"
    by (simp add: to_default_def js_def)
  from listCommits_empty_range [OF example_run_empty this] example_run_empty
  show ?thesis by simp
qed

text \<open>
  Claim C9. When the tag query prints the lines \<open>ls\<close>, \<^verbatim>\<open>listTagNames\<close> returns the
  non-empty lines among them in the order printed: no empty string is returned, and
  the names returned are, as a set, the non-empty lines.
\<close>

theorem listTagNames_lines:
  assumes "git w tagArgs = (Inr (join NL ls), w')" "ls \<noteq> []" "\<forall>l\<in>set ls. NL \<notin> set l"
  shows "\<exists>ts. listTagNames git w = (Inr ts, w', [(tagArgs, Inr (join NL ls))]) \<and>
           ts = filter (\<lambda>l. l \<noteq> []) ls \<and> [] \<notin> set ts \<and> set ts = set ls - {[]}"
proof -
  from split_join [OF assms(2) assms(3)] have "split NL (join NL ls) = ls" .
  with assms(1) have "listTagNames git w = (Inr (filter (\<lambda>l. l \<noteq> []) ls), w', [(tagArgs, Inr (join NL ls))])"
    by (simp add: listTagNames_def execa_def Boolean_eq)
  then show ?thesis by auto
qed

text \<open>The tags of the example repository, with a blank line between them.\<close>

theorem listTagNames_lines_witness:
  "example_git () tagArgs = (Inr (join NL [js ''v1.0.0'', js '''', js ''v1.1.0'']), ()) \<and>
   list_all (\<lambda>l. NL \<notin> set l) [js ''v1.0.0'', js '''', js ''v1.1.0''] \<and>
   fst (listTagNames example_git ()) = Inr [js ''v1.0.0'', js ''v1.1.0'']"
proof -
  let ?ls = "[js ''v1.0.0'', js '''', js ''v1.1.0'']"
  have g: "example_git () tagArgs = (Inr (join NL ?ls), ())"
    by (simp add: example_git_def tagArgs_def fetchArgs_def dupArgs_def rangeArgs_def js_def)
  have n: "\<forall>l\<in>set ?ls. NL \<notin> set l"
    by (simp add: js_def NL_def)
  have e: "?ls \<noteq> []" by simp
  from listTagNames_lines [of example_git "()" ?ls "()", OF g e n] obtain ts where
    t: "listTagNames example_git () = (Inr ts, (), [(tagArgs, Inr (join NL ?ls))])"
       "ts = filter (\<lambda>l. l \<noteq> []) ?ls"
    by (elim exE conjE)
  have "filter (\<lambda>l. l \<noteq> []) ?ls = [js ''v1.0.0'', js ''v1.1.0'']" by (simp add: js_def)
  with t have "fst (listTagNames example_git ()) = Inr [js ''v1.0.0'', js ''v1.1.0'']" by simp
  moreover from n have "list_all (\<lambda>l. NL \<notin> set l) ?ls" by (simp only: list_all_iff)
  ultimately show ?thesis using g by (simp only: simp_thms)
qed

text \<open>
  Claim C10. In every run of \<^verbatim>\<open>listCommits\<close> the first call of the tool is the fetch, made
  in the initial state of the repository, and no other call of the run is a fetch; when
  the fetch fails, the run ends with its error and makes no further call. The
  duplicate-check queries and the range query come after it: the calls of the run are
  the fetch, the queries of the branches in their order and the range query, up to the
  first that fails, and each outcome recorded is the tool's answer in the state that the
  calls before it left, so every query is answered by the repository as the fetch left
  it. The state returned is the state after the last call.
\<close>

theorem listCommits_fetch_once:
  assumes "listCommits git from to dup w = (res, w', calls)"
  shows "calls \<noteq> [] \<and> hd calls = (fetchArgs, fst (git w fetchArgs)) \<and>
         length (filter (\<lambda>c. fst c = fetchArgs) calls) = 1 \<and>
         (\<forall>e. fst (git w fetchArgs) = Inl e \<longrightarrow> res = Inl e \<and> calls = [(fetchArgs, Inl e)]) \<and>
         replay git w (map fst calls) = (calls, w') \<and>
         prefix (map fst calls)
           (fetchArgs # map dupArgs (branches_default dup) @ [rangeArgs from (to_default to)]) \<and>
         (\<forall>rs. res = Inr rs \<longrightarrow>
            map fst calls =
              fetchArgs # map dupArgs (branches_default dup) @ [rangeArgs from (to_default to)])"
proof -
  from listCommits_calls [OF assms] obtain r cs where
    c: "calls = (fetchArgs, r) # cs" "fst (git w fetchArgs) = r" "\<forall>c\<in>set cs. fst c \<noteq> fetchArgs"
      "\<forall>e. r = Inl e \<longrightarrow> cs = [] \<and> res = Inl e" by blast
  from c(3) have "filter (\<lambda>c. fst c = fetchArgs) cs = []" by (simp add: filter_empty_conv)
  with c have a: "calls \<noteq> [] \<and> hd calls = (fetchArgs, fst (git w fetchArgs)) \<and>
         length (filter (\<lambda>c. fst c = fetchArgs) calls) = 1 \<and>
         (\<forall>e. fst (git w fetchArgs) = Inl e \<longrightarrow> res = Inl e \<and> calls = [(fetchArgs, Inl e)])"
    by auto
  note b = listCommits_replay [OF assms]
  from a b show ?thesis by (elim conjE) (intro conjI; assumption)
qed

text \<open>The calls of the run in the example repository start with its only fetch.\<close>

theorem listCommits_fetch_once_witness:
  "snd (snd (listCommits example_git (js ''v1.0.0'') (Some (js ''v1.1.0'')) (Some [js ''release-1.x'']) ())) =
     example_calls \<and>
   hd example_calls = (fetchArgs, Inr (js '''')) \<and>
   length (filter (\<lambda>c. fst c = fetchArgs) example_calls) = 1"
proof -
  from listCommits_fetch_once [OF example_run]
  have "hd example_calls = (fetchArgs, fst (example_git () fetchArgs)) \<and>
        length (filter (\<lambda>c. fst c = fetchArgs) example_calls) = 1" by blast
  moreover have "fst (example_git () fetchArgs) = Inr (js '''')" by (simp add: example_git_def)
  ultimately show ?thesis using example_run by simp
qed

end
